theory Spec2Isabelle
  imports Complex_Main "HOL-Library.Sublist"
begin

section \<open>The file system as sync.py sees it\<close>

text \<open>
  sync.py reads the file system through \<open>os.walk\<close>, \<open>os.path.exists\<close>,
  \<open>os.path.getmtime\<close> and \<open>os.path.isdir\<close>. The model is a tree: a node is a
  file or a directory, both carry their name and their modification time, and a directory
  lists its entries in the order \<open>os.scandir\<close> reports them. A path is the list of its
  components below the root of the tree, so \<open>os.path.join\<close> is list append,
  \<open>os.path.dirname\<close> is \<open>butlast\<close> and \<open>os.path.basename\<close> is \<open>last\<close>.
  There are no symbolic links and names compare exactly.

  Modification times are the reals that the Python floats denote. Comparing two floats is
  exact, and so is the subtraction in \<open>should_overwrite_file\<close> for any two time stamps
  that lie within a factor of two of each other, which holds for all time stamps of files
  written after the first four seconds of 1970.
\<close>

type_synonym path = "string list"

datatype node = File string real | Dir string real "node list"

fun name :: "node \<Rightarrow> string" where
  "name (File n t) = n"
| "name (Dir n t ch) = n"

fun mtime :: "node \<Rightarrow> real" where
  "mtime (File n t) = t"
| "mtime (Dir n t ch) = t"

fun is_dir :: "node \<Rightarrow> bool" where
  "is_dir (File n t) = False"
| "is_dir (Dir n t ch) = True"

text \<open>Path resolution: the entry of a directory with the given name, component by component.\<close>

primrec resolve :: "path \<Rightarrow> node \<Rightarrow> node option" where
  "resolve [] n = Some n"
| "resolve (c # cs) n =
     (case n of
        File _ _ \<Rightarrow> None
      | Dir _ _ ch \<Rightarrow>
          (case find (\<lambda>k. name k = c) ch of
             None \<Rightarrow> None
           | Some k \<Rightarrow> resolve cs k))"

text \<open>In a real directory no two entries share a name.\<close>

fun wf_node :: "node \<Rightarrow> bool" where
  "wf_node (File n t) = True"
| "wf_node (Dir n t ch) = (distinct (map name ch) \<and> list_all wf_node ch)"

datatype error = FileNotFoundError path

definition os_path_exists :: "node \<Rightarrow> path \<Rightarrow> bool" where
  "os_path_exists fs p = (resolve p fs \<noteq> None)"

definition os_path_isdir :: "node \<Rightarrow> path \<Rightarrow> bool" where
  "os_path_isdir fs p = (case resolve p fs of None \<Rightarrow> False | Some n \<Rightarrow> is_dir n)"

definition os_path_getmtime :: "node \<Rightarrow> path \<Rightarrow> error + real" where
  "os_path_getmtime fs p =
     (case resolve p fs of None \<Rightarrow> Inl (FileNotFoundError p) | Some n \<Rightarrow> Inr (mtime n))"

definition os_path_join :: "path \<Rightarrow> path \<Rightarrow> path" where
  "os_path_join a b = a @ b"

definition os_path_dirname :: "path \<Rightarrow> path" where
  "os_path_dirname p = butlast p"

text \<open>
  \<open>os.path.relpath p start\<close> is only ever called with a path that \<open>os.walk start\<close>
  produced, which extends \<open>start\<close> (lemma \<open>os_walk_prefix\<close> below): the relative path
  is what follows \<open>start\<close>.
\<close>

definition os_path_relpath :: "path \<Rightarrow> path \<Rightarrow> path" where
  "os_path_relpath p start = drop (length start) p"

text \<open>
  \<open>str.replace(old, new, 1)\<close>: the first occurrence of \<open>old\<close> is replaced, and a
  string without one is returned as it is. The empty \<open>old\<close> occurs at the start.
\<close>

fun replace1 :: "'a list \<Rightarrow> 'a list \<Rightarrow> 'a list \<Rightarrow> 'a list" where
  "replace1 old new [] = (if old = [] then new else [])"
| "replace1 old new (x # xs) =
     (if prefix old (x # xs) then new @ drop (length old) (x # xs)
      else x # replace1 old new xs)"

subsection \<open>os.walk\<close>

text \<open>
  \<open>os.walk top\<close> yields a triple (directory, names of its subdirectories, names of its
  other entries) for \<open>top\<close> and every directory below it, and yields nothing when
  \<open>top\<close> is not a directory that can be listed. Top-down, a directory is yielded before
  its subdirectories and the walk descends into the names the caller left in the list; the
  three loops of sync.py leave the names \<open>keep\<close> accepts. Bottom-up, the subdirectories
  have all been walked when their parent is yielded, so what the caller does to the list
  changes the walk no more.
\<close>

definition dirnames :: "node list \<Rightarrow> string list" where
  "dirnames ch = map name (filter is_dir ch)"

definition filenames :: "node list \<Rightarrow> string list" where
  "filenames ch = map name (filter (\<lambda>c. \<not> is_dir c) ch)"

fun walk_topdown :: "(string \<Rightarrow> bool) \<Rightarrow> path \<Rightarrow> node \<Rightarrow> (path \<times> string list \<times> string list) list" where
  "walk_topdown keep top_dir (File n t) = []"
| "walk_topdown keep top_dir (Dir n t ch) =
     (top_dir, filter keep (dirnames ch), filenames ch) #
     concat (map (\<lambda>c. walk_topdown keep (top_dir @ [name c]) c)
               (filter (\<lambda>c. is_dir c \<and> keep (name c)) ch))"

fun walk_bottomup :: "path \<Rightarrow> node \<Rightarrow> (path \<times> string list \<times> string list) list" where
  "walk_bottomup top_dir (File n t) = []"
| "walk_bottomup top_dir (Dir n t ch) =
     concat (map (\<lambda>c. walk_bottomup (top_dir @ [name c]) c) (filter is_dir ch)) @
     [(top_dir, dirnames ch, filenames ch)]"

definition os_walk :: "(string \<Rightarrow> bool) \<Rightarrow> node \<Rightarrow> path \<Rightarrow> (path \<times> string list \<times> string list) list" where
  "os_walk keep fs top_dir = (case resolve top_dir fs of None \<Rightarrow> [] | Some n \<Rightarrow> walk_topdown keep top_dir n)"

definition os_walk_bottomup :: "node \<Rightarrow> path \<Rightarrow> (path \<times> string list \<times> string list) list" where
  "os_walk_bottomup fs top_dir = (case resolve top_dir fs of None \<Rightarrow> [] | Some n \<Rightarrow> walk_bottomup top_dir n)"

section \<open>The classifier\<close>

definition EXCLUDE_DIRS :: "string list" where
  "EXCLUDE_DIRS = [''System Volume Information'']"

definition TIME_TOLERANCE :: real where
  "TIME_TOLERANCE = 2.0"

definition not_excluded :: "string \<Rightarrow> bool" where
  "not_excluded d = (d \<notin> set EXCLUDE_DIRS)"

definition should_delete_file :: "node \<Rightarrow> path \<Rightarrow> path \<Rightarrow> path \<Rightarrow> bool" where
  "should_delete_file fs target_file source_dir target_dir =
     (let relative_path = os_path_relpath target_file target_dir;
          source_file_path = os_path_join source_dir relative_path;
          file_exists = os_path_exists fs source_file_path
      in \<not> file_exists)"

definition should_overwrite_file :: "node \<Rightarrow> path \<Rightarrow> path \<Rightarrow> error + string" where
  "should_overwrite_file fs target_file source_file =
     (case os_path_getmtime fs target_file of
        Inl e \<Rightarrow> Inl e
      | Inr target_mtime \<Rightarrow>
          (case os_path_getmtime fs source_file of
             Inl e \<Rightarrow> Inl e
           | Inr source_mtime \<Rightarrow>
               (let time_difference = \<bar>target_mtime - source_mtime\<bar>
                in if time_difference \<le> TIME_TOLERANCE then Inr ''same''
                   else Inr (if target_mtime > source_mtime then ''true'' else ''false''))))"

section \<open>The planner: the three scans of sync\_directories\<close>

text \<open>A \<open>for\<close> loop whose body may raise: the first exception ends the loop.\<close>

fun for_each :: "('a \<Rightarrow> 's \<Rightarrow> error + 's) \<Rightarrow> 'a list \<Rightarrow> 's \<Rightarrow> error + 's" where
  "for_each body [] s = Inr s"
| "for_each body (x # xs) s =
     (case body x s of Inl e \<Rightarrow> Inl e | Inr s' \<Rightarrow> for_each body xs s')"

record candidates =
  delete_candidates :: "path list"
  overwrite_candidates :: "path list"
  copy_candidates :: "(path \<times> path) list"

text \<open>Lines 60 to 73: the body of the loop over the files of one directory of the target.\<close>

definition scan_target_file ::
  "node \<Rightarrow> path \<Rightarrow> path \<Rightarrow> string \<Rightarrow> path \<Rightarrow> string \<Rightarrow> candidates \<Rightarrow> error + candidates" where
  "scan_target_file fs source target script_name root_dir nm c =
     (if nm = script_name then Inr c
      else
        let target_file = os_path_join root_dir [nm];
            relative_path = os_path_relpath target_file target;
            source_file = os_path_join source relative_path
        in if should_delete_file fs target_file source target
           then Inr (c\<lparr>delete_candidates := delete_candidates c @ [target_file]\<rparr>)
           else if os_path_exists fs source_file
           then (case should_overwrite_file fs target_file source_file of
                   Inl e \<Rightarrow> Inl e
                 | Inr r \<Rightarrow>
                     if r = ''true''
                     then Inr (c\<lparr>overwrite_candidates := overwrite_candidates c @ [target_file]\<rparr>)
                     else Inr c)
           else Inr c)"

text \<open>Lines 78 to 84: the body of the loop over the subdirectories of one directory.\<close>

definition scan_target_dir ::
  "node \<Rightarrow> path \<Rightarrow> path \<Rightarrow> path \<Rightarrow> string \<Rightarrow> candidates \<Rightarrow> error + candidates" where
  "scan_target_dir fs source target root_dir nm c =
     (let target_dir_path = os_path_join root_dir [nm];
          relative_path = os_path_relpath target_dir_path target;
          source_dir_path = os_path_join source relative_path
      in if \<not> os_path_exists fs source_dir_path
         then Inr (c\<lparr>delete_candidates := delete_candidates c @ [target_dir_path]\<rparr>)
         else Inr c)"

text \<open>Lines 89 to 97: the body of the loop over the files of one directory of the source.\<close>

definition scan_source_file ::
  "node \<Rightarrow> path \<Rightarrow> path \<Rightarrow> string \<Rightarrow> path \<Rightarrow> string \<Rightarrow> candidates \<Rightarrow> error + candidates" where
  "scan_source_file fs source target script_name root_dir nm c =
     (if nm = script_name then Inr c
      else
        let source_file = os_path_join root_dir [nm];
            target_file = replace1 source target source_file
        in if \<not> os_path_exists fs target_file
           then Inr (c\<lparr>copy_candidates := copy_candidates c @ [(source_file, target_file)]\<rparr>)
           else (case os_path_getmtime fs source_file of
                   Inl e \<Rightarrow> Inl e
                 | Inr source_mtime \<Rightarrow>
                     (case os_path_getmtime fs target_file of
                        Inl e \<Rightarrow> Inl e
                      | Inr target_mtime \<Rightarrow>
                          if source_mtime > target_mtime
                          then Inr (c\<lparr>copy_candidates := copy_candidates c @ [(source_file, target_file)]\<rparr>)
                          else Inr c)))"

text \<open>Lines 52 to 97.\<close>

definition scan_target_files :: "node \<Rightarrow> path \<Rightarrow> path \<Rightarrow> string \<Rightarrow> candidates \<Rightarrow> error + candidates" where
  "scan_target_files fs source target script_name =
     for_each (\<lambda>(root_dir, dirs, files). for_each (scan_target_file fs source target script_name root_dir) files)
       (os_walk not_excluded fs target)"

definition scan_target_dirs :: "node \<Rightarrow> path \<Rightarrow> path \<Rightarrow> candidates \<Rightarrow> error + candidates" where
  "scan_target_dirs fs source target =
     for_each (\<lambda>(root_dir, dirs, files). for_each (scan_target_dir fs source target root_dir) (filter not_excluded dirs))
       (os_walk_bottomup fs target)"

definition scan_source_files :: "node \<Rightarrow> path \<Rightarrow> path \<Rightarrow> string \<Rightarrow> candidates \<Rightarrow> error + candidates" where
  "scan_source_files fs source target script_name =
     for_each (\<lambda>(root_dir, dirs, files). for_each (scan_source_file fs source target script_name root_dir) files)
       (os_walk not_excluded fs source)"

definition plan :: "node \<Rightarrow> path \<Rightarrow> path \<Rightarrow> string \<Rightarrow> error + candidates" where
  "plan fs source target script_name =
     (case scan_target_files fs source target script_name
             \<lparr>delete_candidates = [], overwrite_candidates = [], copy_candidates = []\<rparr> of
        Inl e \<Rightarrow> Inl e
      | Inr c1 \<Rightarrow>
          (case scan_target_dirs fs source target c1 of
             Inl e \<Rightarrow> Inl e
           | Inr c2 \<Rightarrow> scan_source_files fs source target script_name c2))"

section \<open>What the three scans visit, and the tests they apply\<close>

text \<open>
  The paths each loop of the planner reaches, in the order it reaches them: the files of
  a top-down walk other than the script's own name, and the subdirectories that the
  bottom-up walk lists after the exclusion filter of line 77.
\<close>

definition scanned_files :: "node \<Rightarrow> path \<Rightarrow> string \<Rightarrow> path list" where
  "scanned_files fs top_dir script_name =
     concat (map (\<lambda>(root_dir, dirs, files).
                    map (\<lambda>nm. os_path_join root_dir [nm]) (filter (\<lambda>nm. nm \<noteq> script_name) files))
               (os_walk not_excluded fs top_dir))"

definition scanned_dirs :: "node \<Rightarrow> path \<Rightarrow> path list" where
  "scanned_dirs fs top_dir =
     concat (map (\<lambda>(root_dir, dirs, files).
                    map (\<lambda>nm. os_path_join root_dir [nm]) (filter not_excluded dirs))
               (os_walk_bottomup fs top_dir))"

text \<open>The source-side path of a target-side path (lines 65, 66 and 80, 81).\<close>

definition source_path :: "path \<Rightarrow> path \<Rightarrow> path \<Rightarrow> path" where
  "source_path source target p = os_path_join source (os_path_relpath p target)"

text \<open>The condition of line 72 and the condition of line 96.\<close>

definition overwrite_test :: "node \<Rightarrow> path \<Rightarrow> path \<Rightarrow> bool" where
  "overwrite_test fs target_file source_file =
     (os_path_exists fs source_file \<and> should_overwrite_file fs target_file source_file = Inr ''true'')"

definition copy_test :: "node \<Rightarrow> path \<Rightarrow> path \<Rightarrow> bool" where
  "copy_test fs source_file target_file =
     (\<not> os_path_exists fs target_file \<or>
      (case os_path_getmtime fs source_file of
         Inl e \<Rightarrow> False
       | Inr source_mtime \<Rightarrow>
           (case os_path_getmtime fs target_file of
              Inl e \<Rightarrow> False
            | Inr target_mtime \<Rightarrow> source_mtime > target_mtime)))"

definition copy_pair :: "path \<Rightarrow> path \<Rightarrow> path \<Rightarrow> path \<times> path" where
  "copy_pair source target source_file = (source_file, replace1 source target source_file)"

section \<open>The change summary\<close>

text \<open>How a path prints in a message: its components, each after a separator.\<close>

definition show_path :: "path \<Rightarrow> string" where
  "show_path p = concat (map (\<lambda>c. ''/'' @ c) p)"

text \<open>
  The dictionary of \<open>group_files_by_directory\<close> keeps its keys in the order of their
  first insertion, and \<open>items()\<close> reads them in that order: an association list.
  \<open>dict_append\<close> is the body of the loop, lines 43 to 46.
\<close>

fun dict_append :: "'k \<Rightarrow> 'v \<Rightarrow> ('k \<times> 'v list) list \<Rightarrow> ('k \<times> 'v list) list" where
  "dict_append k v [] = [(k, [v])]"
| "dict_append k v ((k', vs) # d) =
     (if k = k' then (k', vs @ [v]) # d else (k', vs) # dict_append k v d)"

definition group_files_by_directory :: "path list \<Rightarrow> (path \<times> path list) list" where
  "group_files_by_directory files_list =
     fold (\<lambda>file directories. dict_append (os_path_dirname file) file directories) files_list []"

text \<open>Lines 104 to 110 and 113 to 119: the lines one group contributes, and the summary.\<close>

definition summary_lines :: "string \<Rightarrow> string \<Rightarrow> path \<times> path list \<Rightarrow> string list" where
  "summary_lines collapsed single g =
     (case g of (directory, files) \<Rightarrow>
        if length files > 20 then [collapsed @ show_path directory]
        else map (\<lambda>file. single @ show_path file) files)"

definition deletion_summary :: "path list \<Rightarrow> string list" where
  "deletion_summary delete_candidates' =
     concat (map (summary_lines ''Delete 20+ files in directory: '' ''Delete file: '')
               (group_files_by_directory delete_candidates'))"

definition overwrite_summary :: "path list \<Rightarrow> string list" where
  "overwrite_summary overwrite_candidates' =
     concat (map (summary_lines ''Overwrite 20+ files in directory: '' ''Overwrite file: '')
               (group_files_by_directory overwrite_candidates'))"

section \<open>The execution phases\<close>

text \<open>
  The operations that change the file system are the environment's: \<open>shutil.rmtree\<close>,
  \<open>os.remove\<close>, \<open>shutil.copy2\<close> and \<open>os.makedirs\<close>. Each takes the file system and
  returns the file system it leaves, with \<open>Some\<close> message when it raised an exception
  and \<open>None\<close> when it returned. The run records the operations it issues, in order, the
  lines it prints and the error entries it collects.
\<close>

record primitives =
  shutil_rmtree :: "path \<Rightarrow> node \<Rightarrow> string option \<times> node"
  os_remove :: "path \<Rightarrow> node \<Rightarrow> string option \<times> node"
  shutil_copy2 :: "path \<Rightarrow> path \<Rightarrow> node \<Rightarrow> string option \<times> node"
  os_makedirs :: "path \<Rightarrow> node \<Rightarrow> string option \<times> node"

datatype call = Rmtree path | Remove path | Copy2 path path | Makedirs path

record run_state =
  files_now :: node
  calls :: "call list"
  printed :: "string list"
  error_paths :: "string list"

text \<open>One call of an operation inside a \<open>try\<close>: the new file system and the call are recorded.\<close>

definition issue :: "call \<Rightarrow> (node \<Rightarrow> string option \<times> node) \<Rightarrow> run_state \<Rightarrow> string option \<times> run_state" where
  "issue c operation s =
     (case operation (files_now s) of
        (r, fs') \<Rightarrow> (r, s\<lparr>files_now := fs', calls := calls s @ [c]\<rparr>))"

definition print_line :: "string \<Rightarrow> run_state \<Rightarrow> run_state" where
  "print_line l s = s\<lparr>printed := printed s @ [l]\<rparr>"

definition record_error :: "string \<Rightarrow> run_state \<Rightarrow> run_state" where
  "record_error l s = s\<lparr>error_paths := error_paths s @ [l]\<rparr>"

text \<open>
  An error entry, \<open>f"Error deleting {path}: {e}"\<close>: the operation and the path, then
  the message of the exception.
\<close>

definition error_label :: "string \<Rightarrow> path \<Rightarrow> string" where
  "error_label what p = what @ show_path p @ '': ''"

definition error_entry :: "string \<Rightarrow> path \<Rightarrow> string \<Rightarrow> string" where
  "error_entry what p e = error_label what p @ e"

text \<open>Lines 129 to 137: the body of the deletion loop.\<close>

definition delete_step :: "primitives \<Rightarrow> path \<Rightarrow> run_state \<Rightarrow> run_state" where
  "delete_step io p s =
     (if os_path_isdir (files_now s) p
      then (case issue (Rmtree p) (shutil_rmtree io p) s of
              (None, s') \<Rightarrow> print_line (''Deleted directory: '' @ show_path p) s'
            | (Some e, s') \<Rightarrow> record_error (error_entry ''Error deleting '' p e) s')
      else (case issue (Remove p) (os_remove io p) s of
              (None, s') \<Rightarrow> print_line (''Deleted '' @ show_path p) s'
            | (Some e, s') \<Rightarrow> record_error (error_entry ''Error deleting '' p e) s'))"












section \<open>An environment and a file system to run the model on\<close>

text \<open>
  Operations that do what their documentation says on the tree: removing an entry, writing
  a file with the modification time of its source (what \<open>copy2\<close> preserves), creating
  the missing directories of a path with time stamp \<open>now\<close>.
\<close>

fun remove_entry :: "path \<Rightarrow> node \<Rightarrow> node" where
  "remove_entry [] n = n"
| "remove_entry (c # cs) (File n t) = File n t"
| "remove_entry [c] (Dir n t ch) = Dir n t (filter (\<lambda>k. name k \<noteq> c) ch)"
| "remove_entry (c # cs) (Dir n t ch) =
     Dir n t (map (\<lambda>k. if name k = c then remove_entry cs k else k) ch)"

fun put_entry :: "path \<Rightarrow> node \<Rightarrow> node \<Rightarrow> node" where
  "put_entry [] new n = n"
| "put_entry (c # cs) new (File n t) = File n t"
| "put_entry [c] new (Dir n t ch) =
     (if c \<in> set (map name ch) then Dir n t (map (\<lambda>k. if name k = c then new else k) ch)
      else Dir n t (ch @ [new]))"
| "put_entry (c # cs) new (Dir n t ch) =
     Dir n t (map (\<lambda>k. if name k = c then put_entry cs new k else k) ch)"

fun make_dirs :: "real \<Rightarrow> path \<Rightarrow> node \<Rightarrow> node" where
  "make_dirs now [] n = n"
| "make_dirs now (c # cs) (File n t) = File n t"
| "make_dirs now (c # cs) (Dir n t ch) =
     (if c \<in> set (map name ch)
      then Dir n t (map (\<lambda>k. if name k = c then make_dirs now cs k else k) ch)
      else Dir n t (ch @ [make_dirs now cs (Dir c now [])]))"

definition ideal_io :: primitives where
  "ideal_io =
     \<lparr>shutil_rmtree = (\<lambda>p fs. if os_path_isdir fs p then (None, remove_entry p fs)
                              else (Some ''not a directory'', fs)),
      os_remove = (\<lambda>p fs. case resolve p fs of
                             Some (File n t) \<Rightarrow> (None, remove_entry p fs)
                           | _ \<Rightarrow> (Some ''no such file'', fs)),
      shutil_copy2 = (\<lambda>src dst fs. case resolve src fs of
                                      Some (File n t) \<Rightarrow>
                                        if dst \<noteq> [] \<and> os_path_isdir fs (os_path_dirname dst)
                                        then (None, put_entry dst (File (last dst) t) fs)
                                        else (Some ''no such directory'', fs)
                                    | _ \<Rightarrow> (Some ''no such file'', fs)),
      os_makedirs = (\<lambda>p fs. if os_path_exists fs p then (Some ''file exists'', fs)
                            else (None, make_dirs 0 p fs))\<rparr>"


definition fsA :: node where
  "fsA = Dir ''/'' 0
     [Dir ''s'' 0 [File ''a.txt'' 100, File ''b.txt'' 0, File ''n.txt'' 5, Dir ''d'' 0 [File ''x'' 1]],
      Dir ''t'' 0 [File ''a.txt'' 0, File ''b.txt'' 100, File ''o.txt'' 5, File ''q.txt'' 6,
                   Dir ''System Volume Information'' 0 [Dir ''sub'' 0 [File ''y'' 1]],
                   Dir ''e'' 0 [Dir ''f'' 0 [File ''z'' 3]]]]"

definition planA :: candidates where
  "planA =
     \<lparr>delete_candidates =
        [[''t'', ''o.txt''], [''t'', ''q.txt''], [''t'', ''e'', ''f'', ''z''],
         [''t'', ''System Volume Information'', ''sub''],
         [''t'', ''e'', ''f''], [''t'', ''e'']],
      overwrite_candidates = [[''t'', ''b.txt'']],
      copy_candidates =
        [([''s'', ''a.txt''], [''t'', ''a.txt'']),
         ([''s'', ''n.txt''], [''t'', ''n.txt'']),
         ([''s'', ''d'', ''x''], [''t'', ''d'', ''x''])]\<rparr>"

text \<open>A target that holds a directory with the script's own name.\<close>

definition fsC :: node where
  "fsC = Dir ''/'' 0 [Dir ''s'' 0 [], Dir ''t'' 0 [Dir ''sync.py'' 0 [File ''sync.py'' 1]]]"

definition planC :: candidates where
  "planC = \<lparr>delete_candidates = [[''t'', ''sync.py'']], overwrite_candidates = [], copy_candidates = []\<rparr>"






text \<open>The path an operation works on: what it removes, writes or creates.\<close>

fun call_target :: "call \<Rightarrow> path" where
  "call_target (Rmtree p) = p"
| "call_target (Remove p) = p"
| "call_target (Copy2 src dst) = dst"
| "call_target (Makedirs p) = p"

text \<open>No entry of the list is a proper ancestor of a later entry.\<close>

definition bottom_up :: "path list \<Rightarrow> bool" where
  "bottom_up ps = sorted_wrt (\<lambda>p q. \<not> strict_prefix p q) ps"

text \<open>The directories the bottom-up walk of a tree lists, after the exclusion filter.\<close>

definition dirs_below :: "path \<Rightarrow> node \<Rightarrow> path list" where
  "dirs_below top_dir n =
     concat (map (\<lambda>(root_dir, dirs, files).
                    map (\<lambda>nm. os_path_join root_dir [nm]) (filter not_excluded dirs))
               (walk_bottomup top_dir n))"

text \<open>The distinct elements of a list, in the order of their first occurrence.\<close>

definition first_occurrences :: "'a list \<Rightarrow> 'a list" where
  "first_occurrences xs = rev (remdups (rev xs))"

text \<open>Candidate lists of 21 and of 20 files of one directory.\<close>

definition files21 :: "path list" where
  "files21 = map (\<lambda>n. [''t'', ''d'', replicate n (CHR ''x'')]) [1..<22]"

definition files20 :: "path list" where
  "files20 = map (\<lambda>n. [''t'', ''d'', replicate n (CHR ''x'')]) [1..<21]"









section \<open>Properties of the planner\<close>

subsection \<open>The loops\<close>

lemma for_each_appends:
  assumes "\<And>x s s'. x \<in> set xs \<Longrightarrow> body x s = Inr s' \<Longrightarrow> proj s' = proj s @ f x"
    and "for_each body xs s = Inr s'"
  shows "proj s' = proj s @ concat (map f xs)"
  using assms
proof (induction xs arbitrary: s)
  case Nil
  then show ?case by simp
next
  case (Cons x xs)
  from Cons.prems(2) obtain s1 where s1: "body x s = Inr s1" and rest: "for_each body xs s1 = Inr s'"
    by (auto split: sum.splits)
  have "proj s1 = proj s @ f x" using Cons.prems(1) s1 by simp
  moreover have "proj s' = proj s1 @ concat (map f xs)"
    using Cons.IH[OF _ rest] Cons.prems(1) by simp
  ultimately show ?case by simp
qed

lemma for_each_total:
  assumes "\<And>x s. x \<in> set xs \<Longrightarrow> \<exists>s'. body x s = Inr s'"
  shows "\<exists>s'. for_each body xs s = Inr s'"
  using assms
proof (induction xs arbitrary: s)
  case Nil
  then show ?case by simp
next
  case (Cons x xs)
  then obtain s1 where "body x s = Inr s1" by force
  then show ?case using Cons by simp
qed

lemma concat_if_filter:
  "concat (map (\<lambda>x. if Q x \<and> P (g x) then [g x] else []) xs) = filter P (map g (filter Q xs))"
  by (induction xs) auto

lemma for_each_nested_filter:
  assumes step: "\<And>x y s s'. body x y s = Inr s' \<Longrightarrow>
                   proj s' = proj s @ (if Q y \<and> P (g x y) then [g x y] else [])"
    and run: "for_each (\<lambda>x. for_each (body x) (items x)) w s = Inr s'"
  shows "proj s' = proj s @ filter P (concat (map (\<lambda>x. map (g x) (filter Q (items x))) w))"
proof -
  let ?f = "\<lambda>x y. if Q y \<and> P (g x y) then [g x y] else []"
  have inner: "proj t' = proj t @ concat (map (?f x) (items x))"
    if "for_each (body x) (items x) t = Inr t'" for x t t'
    using that by (rule for_each_appends[rotated]) (rule step)
  have "proj s' = proj s @ concat (map (\<lambda>x. concat (map (?f x) (items x))) w)"
    using run by (rule for_each_appends[rotated]) (rule inner)
  moreover have "concat (map (?f x) (items x)) = filter P (map (g x) (filter Q (items x)))" for x
    by (rule concat_if_filter)
  ultimately show ?thesis
    by (simp add: filter_concat comp_def)
qed

lemma scan_target_file_delete:
  "scan_target_file fs source target script_name root_dir nm c = Inr c' \<Longrightarrow>
   delete_candidates c' = delete_candidates c @
     (if nm \<noteq> script_name \<and> should_delete_file fs (os_path_join root_dir [nm]) source target
      then [os_path_join root_dir [nm]] else [])"
  by (auto simp: scan_target_file_def Let_def split: if_splits sum.splits)

lemma scan_target_file_overwrite:
  "scan_target_file fs source target script_name root_dir nm c = Inr c' \<Longrightarrow>
   overwrite_candidates c' = overwrite_candidates c @
     (if nm \<noteq> script_name \<and>
         (\<not> should_delete_file fs (os_path_join root_dir [nm]) source target \<and>
          overwrite_test fs (os_path_join root_dir [nm])
            (source_path source target (os_path_join root_dir [nm])))
      then [os_path_join root_dir [nm]] else [])"
  by (auto simp: scan_target_file_def overwrite_test_def source_path_def Let_def
           split: if_splits sum.splits)

lemma scan_target_file_copy:
  "scan_target_file fs source target script_name root_dir nm c = Inr c' \<Longrightarrow>
   copy_candidates c' = copy_candidates c"
  by (auto simp: scan_target_file_def Let_def split: if_splits sum.splits)

lemma scan_target_files_delete:
  assumes "scan_target_files fs source target script_name c = Inr c'"
  shows "delete_candidates c' = delete_candidates c @
           filter (\<lambda>p. should_delete_file fs p source target) (scanned_files fs target script_name)"
  using assms unfolding scan_target_files_def scanned_files_def case_prod_beta
  by (rule for_each_nested_filter[rotated]) (rule scan_target_file_delete)

lemma scan_target_files_overwrite:
  assumes "scan_target_files fs source target script_name c = Inr c'"
  shows "overwrite_candidates c' = overwrite_candidates c @
           filter (\<lambda>p. \<not> should_delete_file fs p source target \<and>
                        overwrite_test fs p (source_path source target p))
             (scanned_files fs target script_name)"
  using assms unfolding scan_target_files_def scanned_files_def case_prod_beta
  by (rule for_each_nested_filter[rotated]) (rule scan_target_file_overwrite)

lemma for_each_keeps:
  assumes "\<And>x s s'. body x s = Inr s' \<Longrightarrow> proj s' = proj s"
    and "for_each body xs s = Inr s'"
  shows "proj s' = proj s"
  using assms(2)
proof (induction xs arbitrary: s)
  case Nil
  then show ?case by simp
next
  case (Cons x xs)
  then show ?case using assms(1) by (auto split: sum.splits)
qed

lemma scan_target_files_copy:
  assumes "scan_target_files fs source target script_name c = Inr c'"
  shows "copy_candidates c' = copy_candidates c"
  using assms unfolding scan_target_files_def case_prod_beta
  by (rule for_each_keeps[rotated]) (erule for_each_keeps[rotated], erule scan_target_file_copy)


lemma scan_target_dir_delete:
  "scan_target_dir fs source target root_dir nm c = Inr c' \<Longrightarrow>
   delete_candidates c' = delete_candidates c @
     (if True \<and> \<not> os_path_exists fs (source_path source target (os_path_join root_dir [nm]))
      then [os_path_join root_dir [nm]] else [])"
  by (auto simp: scan_target_dir_def source_path_def Let_def split: if_splits)

lemma scan_target_dir_others:
  "scan_target_dir fs source target root_dir nm c = Inr c' \<Longrightarrow>
   overwrite_candidates c' = overwrite_candidates c \<and> copy_candidates c' = copy_candidates c"
  by (auto simp: scan_target_dir_def Let_def split: if_splits)

lemma scan_target_dirs_delete:
  assumes "scan_target_dirs fs source target c = Inr c'"
  shows "delete_candidates c' = delete_candidates c @
           filter (\<lambda>p. \<not> os_path_exists fs (source_path source target p)) (scanned_dirs fs target)"
proof -
  have "delete_candidates c' = delete_candidates c @
          filter (\<lambda>p. \<not> os_path_exists fs (source_path source target p))
            (concat (map (\<lambda>x. map (\<lambda>nm. os_path_join (fst x) [nm])
                                 (filter (\<lambda>nm. True) (filter not_excluded (fst (snd x)))))
                       (os_walk_bottomup fs target)))"
    using assms unfolding scan_target_dirs_def case_prod_beta
    by (rule for_each_nested_filter[rotated]) (rule scan_target_dir_delete)
  then show ?thesis unfolding scanned_dirs_def case_prod_beta by simp
qed

lemma scan_target_dirs_others:
  assumes "scan_target_dirs fs source target c = Inr c'"
  shows "overwrite_candidates c' = overwrite_candidates c" "copy_candidates c' = copy_candidates c"
proof -
  show "overwrite_candidates c' = overwrite_candidates c"
    using assms unfolding scan_target_dirs_def case_prod_beta
    by (rule for_each_keeps[rotated]) (erule for_each_keeps[rotated], simp add: scan_target_dir_others)
  show "copy_candidates c' = copy_candidates c"
    using assms unfolding scan_target_dirs_def case_prod_beta
    by (rule for_each_keeps[rotated]) (erule for_each_keeps[rotated], simp add: scan_target_dir_others)
qed

lemma scan_source_file_copy:
  "scan_source_file fs source target script_name root_dir nm c = Inr c' \<Longrightarrow>
   copy_candidates c' = copy_candidates c @
     (if nm \<noteq> script_name \<and>
         copy_test fs (fst (os_path_join root_dir [nm], replace1 source target (os_path_join root_dir [nm])))
                      (snd (os_path_join root_dir [nm], replace1 source target (os_path_join root_dir [nm])))
      then [(os_path_join root_dir [nm], replace1 source target (os_path_join root_dir [nm]))] else [])"
  by (auto simp: scan_source_file_def copy_test_def Let_def split: if_splits sum.splits)

lemma scan_source_file_others:
  "scan_source_file fs source target script_name root_dir nm c = Inr c' \<Longrightarrow>
   delete_candidates c' = delete_candidates c \<and> overwrite_candidates c' = overwrite_candidates c"
  by (auto simp: scan_source_file_def Let_def split: if_splits sum.splits)


lemma scan_source_files_copy:
  assumes "scan_source_files fs source target script_name c = Inr c'"
  shows "copy_candidates c' = copy_candidates c @
           filter (\<lambda>x. copy_test fs (fst x) (snd x))
             (map (copy_pair source target) (scanned_files fs source script_name))"
proof -
  have "copy_candidates c' = copy_candidates c @
          filter (\<lambda>x. copy_test fs (fst x) (snd x))
            (concat (map (\<lambda>x. map (\<lambda>nm. (os_path_join (fst x) [nm], replace1 source target (os_path_join (fst x) [nm])))
                                 (filter (\<lambda>nm. nm \<noteq> script_name) (snd (snd x))))
                       (os_walk not_excluded fs source)))"
    using assms unfolding scan_source_files_def case_prod_beta
    by (rule for_each_nested_filter[rotated]) (rule scan_source_file_copy)
  then show ?thesis
    unfolding scanned_files_def case_prod_beta by (simp add: map_concat comp_def copy_pair_def)
qed

lemma scan_source_files_others:
  assumes "scan_source_files fs source target script_name c = Inr c'"
  shows "delete_candidates c' = delete_candidates c" "overwrite_candidates c' = overwrite_candidates c"
proof -
  show "delete_candidates c' = delete_candidates c"
    using assms unfolding scan_source_files_def case_prod_beta
    by (rule for_each_keeps[rotated]) (erule for_each_keeps[rotated], simp add: scan_source_file_others)
  show "overwrite_candidates c' = overwrite_candidates c"
    using assms unfolding scan_source_files_def case_prod_beta
    by (rule for_each_keeps[rotated]) (erule for_each_keeps[rotated], simp add: scan_source_file_others)
qed

lemma plan_lists:
  assumes "plan fs source target script_name = Inr c"
  shows "delete_candidates c =
           filter (\<lambda>p. should_delete_file fs p source target) (scanned_files fs target script_name) @
           filter (\<lambda>p. \<not> os_path_exists fs (source_path source target p)) (scanned_dirs fs target)"
    and "overwrite_candidates c =
           filter (\<lambda>p. \<not> should_delete_file fs p source target \<and>
                        overwrite_test fs p (source_path source target p))
             (scanned_files fs target script_name)"
    and "copy_candidates c =
           filter (\<lambda>x. copy_test fs (fst x) (snd x))
             (map (copy_pair source target) (scanned_files fs source script_name))"
proof -
  from assms obtain c1 c2 where
    1: "scan_target_files fs source target script_name
          \<lparr>delete_candidates = [], overwrite_candidates = [], copy_candidates = []\<rparr> = Inr c1" and
    2: "scan_target_dirs fs source target c1 = Inr c2" and
    3: "scan_source_files fs source target script_name c2 = Inr c"
    by (auto simp: plan_def split: sum.splits)
  show "delete_candidates c =
           filter (\<lambda>p. should_delete_file fs p source target) (scanned_files fs target script_name) @
           filter (\<lambda>p. \<not> os_path_exists fs (source_path source target p)) (scanned_dirs fs target)"
    using scan_target_files_delete[OF 1] scan_target_dirs_delete[OF 2] scan_source_files_others(1)[OF 3]
    by simp
  show "overwrite_candidates c =
           filter (\<lambda>p. \<not> should_delete_file fs p source target \<and>
                        overwrite_test fs p (source_path source target p))
             (scanned_files fs target script_name)"
    using scan_target_files_overwrite[OF 1] scan_target_dirs_others(1)[OF 2] scan_source_files_others(2)[OF 3]
    by simp
  show "copy_candidates c =
           filter (\<lambda>x. copy_test fs (fst x) (snd x))
             (map (copy_pair source target) (scanned_files fs source script_name))"
    using scan_target_files_copy[OF 1] scan_target_dirs_others(2)[OF 2] scan_source_files_copy[OF 3]
    by simp
qed

subsection \<open>Walks and path resolution\<close>

lemma find_by_name:
  "distinct (map name ch) \<Longrightarrow> c \<in> set ch \<Longrightarrow> find (\<lambda>k. name k = name c) ch = Some c"
  by (induction ch) auto

lemma resolve_append:
  "resolve (a @ b) n = (case resolve a n of None \<Rightarrow> None | Some m \<Rightarrow> resolve b m)"
  by (induction a arbitrary: n) (auto split: node.splits option.splits)

lemma resolve_child:
  "distinct (map name ch) \<Longrightarrow> c \<in> set ch \<Longrightarrow> resolve (name c # rel) (Dir n t ch) = resolve rel c"
  by (simp add: find_by_name)

lemma walk_topdown_resolve:
  "wf_node n \<Longrightarrow> (r, ds, fl) \<in> set (walk_topdown keep top_dir n) \<Longrightarrow>
   \<exists>rel m t ch. r = top_dir @ rel \<and> resolve rel n = Some (Dir m t ch) \<and>
                 ds = filter keep (dirnames ch) \<and> fl = filenames ch"
proof (induction keep top_dir n arbitrary: r ds fl rule: walk_topdown.induct)
  case (1 keep top_dir n t)
  then show ?case by simp
next
  case (2 keep top_dir n t ch)
  from "2.prems"(2) consider
    (here) "(r, ds, fl) = (top_dir, filter keep (dirnames ch), filenames ch)" |
    (below) c where "c \<in> set ch" "is_dir c" "keep (name c)"
                    "(r, ds, fl) \<in> set (walk_topdown keep (top_dir @ [name c]) c)"
    by auto
  then show ?case
  proof cases
    case here
    then have "r = top_dir @ []" "resolve [] (Dir n t ch) = Some (Dir n t ch)"
      "ds = filter keep (dirnames ch)" "fl = filenames ch" by auto
    then show ?thesis by blast
  next
    case below
    from "2.prems"(1) below(1) have wfc: "wf_node c" and d: "distinct (map name ch)"
      by (auto simp: list_all_iff)
    from "2.IH"[of c r ds fl] below wfc obtain rel m t' ch' where
      r: "r = (top_dir @ [name c]) @ rel" and res: "resolve rel c = Some (Dir m t' ch')"
      and rest: "ds = filter keep (dirnames ch')" "fl = filenames ch'"
      by auto
    have "r = top_dir @ (name c # rel)" using r by simp
    moreover have "resolve (name c # rel) (Dir n t ch) = Some (Dir m t' ch')"
      using resolve_child[OF d below(1)] res by simp
    ultimately show ?thesis using rest by blast
  qed
qed

lemma walk_bottomup_resolve:
  "wf_node n \<Longrightarrow> (r, ds, fl) \<in> set (walk_bottomup top_dir n) \<Longrightarrow>
   \<exists>rel m t ch. r = top_dir @ rel \<and> resolve rel n = Some (Dir m t ch) \<and>
                 ds = dirnames ch \<and> fl = filenames ch"
proof (induction top_dir n arbitrary: r ds fl rule: walk_bottomup.induct)
  case (1 top_dir n t)
  then show ?case by simp
next
  case (2 top_dir n t ch)
  from "2.prems"(2) consider
    (here) "(r, ds, fl) = (top_dir, dirnames ch, filenames ch)" |
    (below) c where "c \<in> set ch" "is_dir c"
                    "(r, ds, fl) \<in> set (walk_bottomup (top_dir @ [name c]) c)"
    by auto
  then show ?case
  proof cases
    case here
    then have "r = top_dir @ []" "resolve [] (Dir n t ch) = Some (Dir n t ch)"
      "ds = dirnames ch" "fl = filenames ch" by auto
    then show ?thesis by blast
  next
    case below
    from "2.prems"(1) below(1) have wfc: "wf_node c" and d: "distinct (map name ch)"
      by (auto simp: list_all_iff)
    from "2.IH"[of c r ds fl] below wfc obtain rel m t' ch' where
      r: "r = (top_dir @ [name c]) @ rel" and res: "resolve rel c = Some (Dir m t' ch')"
      and rest: "ds = dirnames ch'" "fl = filenames ch'"
      by auto
    have "r = top_dir @ (name c # rel)" using r by simp
    moreover have "resolve (name c # rel) (Dir n t ch) = Some (Dir m t' ch')"
      using resolve_child[OF d below(1)] res by simp
    ultimately show ?thesis using rest by blast
  qed
qed

lemma find_in_set: "find P xs = Some x \<Longrightarrow> x \<in> set xs"
  by (induction xs) (auto split: if_splits)

lemma wf_resolve: "wf_node n \<Longrightarrow> resolve p n = Some m \<Longrightarrow> wf_node m"
proof (induction p arbitrary: n)
  case Nil
  then show ?case by simp
next
  case (Cons c cs)
  then show ?case
    by (auto split: node.splits option.splits simp: list_all_iff dest: find_in_set)
qed


lemma filenames_entry:
  "distinct (map name ch) \<Longrightarrow> nm \<in> set (filenames ch) \<Longrightarrow>
   \<exists>t. resolve [nm] (Dir m t0 ch) = Some (File nm t)"
proof -
  assume d: "distinct (map name ch)" and "nm \<in> set (filenames ch)"
  then obtain c where c: "c \<in> set ch" "\<not> is_dir c" "name c = nm"
    by (auto simp: filenames_def)
  from c(2,3) obtain t where "c = File nm t" by (cases c) auto
  moreover have "resolve [name c] (Dir m t0 ch) = Some c"
    using find_by_name[OF d c(1)] by simp
  ultimately show ?thesis using c(3) by auto
qed

lemma dirnames_entry:
  "distinct (map name ch) \<Longrightarrow> nm \<in> set (dirnames ch) \<Longrightarrow>
   \<exists>t ch'. resolve [nm] (Dir m t0 ch) = Some (Dir nm t ch')"
proof -
  assume d: "distinct (map name ch)" and "nm \<in> set (dirnames ch)"
  then obtain c where c: "c \<in> set ch" "is_dir c" "name c = nm"
    by (auto simp: dirnames_def)
  from c(2,3) obtain t ch' where "c = Dir nm t ch'" by (cases c) auto
  moreover have "resolve [name c] (Dir m t0 ch) = Some c"
    using find_by_name[OF d c(1)] by simp
  ultimately show ?thesis using c(3) by auto
qed

lemma os_walk_files:
  assumes wf: "wf_node fs" and tr: "(r, ds, fl) \<in> set (os_walk keep fs top_dir)" and nm: "nm \<in> set fl"
  shows "\<exists>t. resolve (os_path_join r [nm]) fs = Some (File nm t)"
proof -
  from tr obtain n where n: "resolve top_dir fs = Some n" and w: "(r, ds, fl) \<in> set (walk_topdown keep top_dir n)"
    by (cases "resolve top_dir fs") (auto simp: os_walk_def)
  have wfn: "wf_node n" using wf_resolve[OF wf n] .
  from walk_topdown_resolve[OF wfn w] obtain rel m t ch where
    r: "r = top_dir @ rel" and res: "resolve rel n = Some (Dir m t ch)" and fl: "fl = filenames ch"
    by blast
  have "wf_node (Dir m t ch)" using wf_resolve[OF wfn res] .
  then have "distinct (map name ch)" by simp
  from filenames_entry[OF this, of nm m t] nm fl obtain t' where
    "resolve [nm] (Dir m t ch) = Some (File nm t')" by blast
  then have "resolve (top_dir @ rel @ [nm]) fs = Some (File nm t')"
    using n res by (simp only: resolve_append option.case)
  then show ?thesis using r by (auto simp: os_path_join_def)
qed

lemma os_walk_bottomup_dirs:
  assumes wf: "wf_node fs" and tr: "(r, ds, fl) \<in> set (os_walk_bottomup fs top_dir)" and nm: "nm \<in> set ds"
  shows "\<exists>t ch. resolve (os_path_join r [nm]) fs = Some (Dir nm t ch)"
proof -
  from tr obtain n where n: "resolve top_dir fs = Some n" and w: "(r, ds, fl) \<in> set (walk_bottomup top_dir n)"
    by (cases "resolve top_dir fs") (auto simp: os_walk_bottomup_def)
  have wfn: "wf_node n" using wf_resolve[OF wf n] .
  from walk_bottomup_resolve[OF wfn w] obtain rel m t ch where
    r: "r = top_dir @ rel" and res: "resolve rel n = Some (Dir m t ch)" and ds: "ds = dirnames ch"
    by blast
  have "wf_node (Dir m t ch)" using wf_resolve[OF wfn res] .
  then have "distinct (map name ch)" by simp
  from dirnames_entry[OF this, of nm m t] nm ds obtain t' ch' where
    "resolve [nm] (Dir m t ch) = Some (Dir nm t' ch')" by blast
  then have "resolve (top_dir @ rel @ [nm]) fs = Some (Dir nm t' ch')"
    using n res by (simp only: resolve_append option.case)
  then show ?thesis using r by (auto simp: os_path_join_def)
qed

lemma scanned_files_resolve:
  assumes "wf_node fs" and "p \<in> set (scanned_files fs top_dir script_name)"
  shows "\<exists>nm t. resolve p fs = Some (File nm t) \<and> nm \<noteq> script_name \<and> p \<noteq> [] \<and> last p = nm"
proof -
  from assms(2) obtain r ds fl nm where
    "(r, ds, fl) \<in> set (os_walk not_excluded fs top_dir)" "nm \<in> set fl" "nm \<noteq> script_name"
    "p = os_path_join r [nm]"
    by (auto simp: scanned_files_def)
  with os_walk_files[OF assms(1) this(1,2)] show ?thesis
    by (auto simp: os_path_join_def)
qed

lemma scanned_dirs_resolve:
  assumes "wf_node fs" and "p \<in> set (scanned_dirs fs top_dir)"
  shows "\<exists>nm t ch. resolve p fs = Some (Dir nm t ch) \<and> nm \<notin> set EXCLUDE_DIRS \<and> p \<noteq> [] \<and> last p = nm"
proof -
  from assms(2) obtain r ds fl nm where
    "(r, ds, fl) \<in> set (os_walk_bottomup fs top_dir)" "nm \<in> set ds" "not_excluded nm"
    "p = os_path_join r [nm]"
    by (auto simp: scanned_dirs_def)
  with os_walk_bottomup_dirs[OF assms(1) this(1,2)] show ?thesis
    by (auto simp: os_path_join_def not_excluded_def)
qed

lemma scan_target_file_total:
  assumes "os_path_exists fs (os_path_join root_dir [nm])"
  shows "\<exists>c'. scan_target_file fs source target script_name root_dir nm c = Inr c'"
  using assms
  by (auto simp: scan_target_file_def should_overwrite_file_def os_path_getmtime_def
                 os_path_exists_def Let_def split: option.splits)

lemma scan_source_file_total:
  assumes "os_path_exists fs (os_path_join root_dir [nm])"
  shows "\<exists>c'. scan_source_file fs source target script_name root_dir nm c = Inr c'"
  using assms
  by (auto simp: scan_source_file_def os_path_getmtime_def os_path_exists_def Let_def
           split: option.splits)

lemma scan_target_dir_total:
  "\<exists>c'. scan_target_dir fs source target root_dir nm c = Inr c'"
  by (auto simp: scan_target_dir_def Let_def)

lemma plan_total:
  assumes wf: "wf_node fs"
  shows "\<exists>c. plan fs source target script_name = Inr c"
proof -
  have ex: "os_path_exists fs (os_path_join r [nm])"
    if "(r, ds, fl) \<in> set (os_walk keep fs top_dir)" "nm \<in> set fl" for r ds fl nm keep top_dir
    using os_walk_files[OF wf that] by (auto simp: os_path_exists_def)
  have 1: "\<exists>c'. scan_target_files fs source target script_name c = Inr c'" for c
    unfolding scan_target_files_def
    by (rule for_each_total) (auto intro!: for_each_total scan_target_file_total ex)
  have 2: "\<exists>c'. scan_target_dirs fs source target c = Inr c'" for c
    unfolding scan_target_dirs_def
    by (rule for_each_total) (auto intro!: for_each_total scan_target_dir_total)
  have 3: "\<exists>c'. scan_source_files fs source target script_name c = Inr c'" for c
    unfolding scan_source_files_def
    by (rule for_each_total) (auto intro!: for_each_total scan_source_file_total ex)
  from 1 obtain c1 where c1: "scan_target_files fs source target script_name
      \<lparr>delete_candidates = [], overwrite_candidates = [], copy_candidates = []\<rparr> = Inr c1" by blast
  from 2 obtain c2 where c2: "scan_target_dirs fs source target c1 = Inr c2" by blast
  from 3 obtain c3 where c3: "scan_source_files fs source target script_name c2 = Inr c3" by blast
  show ?thesis using c1 c2 c3 by (simp add: plan_def)
qed

lemma walk_topdown_prefix:
  "(r, ds, fl) \<in> set (walk_topdown keep top_dir n) \<Longrightarrow> prefix top_dir r"
proof (induction keep top_dir n arbitrary: r ds fl rule: walk_topdown.induct)
  case (1 keep top_dir n t)
  then show ?case by simp
next
  case (2 keep top_dir n t ch)
  from "2.prems" consider "r = top_dir" |
    c where "c \<in> set ch" "is_dir c" "keep (name c)"
            "(r, ds, fl) \<in> set (walk_topdown keep (top_dir @ [name c]) c)"
    by auto
  then show ?case
  proof cases
    case 1
    then show ?thesis by simp
  next
    case 2
    from "2.IH"[of c r ds fl] 2 have "prefix (top_dir @ [name c]) r" by auto
    then show ?thesis by (rule append_prefixD)
  qed
qed

lemma walk_bottomup_prefix:
  "(r, ds, fl) \<in> set (walk_bottomup top_dir n) \<Longrightarrow> prefix top_dir r"
proof (induction top_dir n arbitrary: r ds fl rule: walk_bottomup.induct)
  case (1 top_dir n t)
  then show ?case by simp
next
  case (2 top_dir n t ch)
  from "2.prems" consider "r = top_dir" |
    c where "c \<in> set ch" "is_dir c"
            "(r, ds, fl) \<in> set (walk_bottomup (top_dir @ [name c]) c)"
    by auto
  then show ?case
  proof cases
    case 1
    then show ?thesis by simp
  next
    case 2
    from "2.IH"[of c r ds fl] 2 have "prefix (top_dir @ [name c]) r" by auto
    then show ?thesis by (rule append_prefixD)
  qed
qed

lemma os_walk_prefix:
  "(r, ds, fl) \<in> set (os_walk keep fs top_dir) \<Longrightarrow> prefix top_dir r"
  "(r, ds, fl) \<in> set (os_walk_bottomup fs top_dir) \<Longrightarrow> prefix top_dir r"
  by (auto simp: os_walk_def os_walk_bottomup_def split: option.splits
           dest: walk_topdown_prefix walk_bottomup_prefix)

lemma scanned_prefix:
  "p \<in> set (scanned_files fs top_dir script_name) \<Longrightarrow> strict_prefix top_dir p"
  "p \<in> set (scanned_dirs fs top_dir) \<Longrightarrow> strict_prefix top_dir p"
  by (auto simp: scanned_files_def scanned_dirs_def os_path_join_def strict_prefix_def
           dest!: os_walk_prefix elim!: prefixE)

lemma replace1_prefix: "prefix old xs \<Longrightarrow> replace1 old new xs = new @ drop (length old) xs"
  by (cases xs) auto



lemma delete_candidates_iff:
  assumes "plan fs source target script_name = Inr c"
    and "p \<in> set (scanned_files fs target script_name) \<union> set (scanned_dirs fs target)"
  shows "(p \<in> set (delete_candidates c)) = (\<not> os_path_exists fs (source_path source target p))"
  using plan_lists(1)[OF assms(1)] assms(2)
  by (auto simp: should_delete_file_def source_path_def Let_def)

lemma copy_candidate_source:
  assumes "plan fs source target script_name = Inr c"
    and "(sf, tf) \<in> set (copy_candidates c)"
  shows "sf \<in> set (scanned_files fs source script_name) \<and>
         tf = os_path_join target (os_path_relpath sf source)"
proof -
  from plan_lists(3)[OF assms(1)] assms(2)
  have sf: "sf \<in> set (scanned_files fs source script_name)" and tf: "tf = replace1 source target sf"
    by (auto simp: copy_pair_def)
  from scanned_prefix(1)[OF sf] have "prefix source sf" by (simp add: strict_prefix_def)
  then show ?thesis using sf tf
    by (simp add: replace1_prefix os_path_join_def os_path_relpath_def)
qed

lemma copy_destination_has_source:
  assumes "plan fs source target script_name = Inr c" and "wf_node fs"
    and "(sf, p) \<in> set (copy_candidates c)"
  shows "source_path source target p = sf \<and> os_path_exists fs sf"
proof
  from copy_candidate_source[OF assms(1,3)]
  have sf: "sf \<in> set (scanned_files fs source script_name)"
    and p: "p = target @ drop (length source) sf"
    by (simp_all add: os_path_join_def os_path_relpath_def)
  from scanned_prefix(1)[OF sf] have "prefix source sf" by (simp add: strict_prefix_def)
  then have "source @ drop (length source) sf = sf" by (auto elim: prefixE)
  then show "source_path source target p = sf"
    using p by (simp add: source_path_def os_path_join_def os_path_relpath_def)
  show "os_path_exists fs sf"
    using scanned_files_resolve[OF assms(2) sf] by (auto simp: os_path_exists_def)
qed

lemma walk_topdown_kept:
  "(r, ds, fl) \<in> set (walk_topdown keep top_dir n) \<Longrightarrow> \<exists>rel. r = top_dir @ rel \<and> list_all keep rel"
proof (induction keep top_dir n arbitrary: r ds fl rule: walk_topdown.induct)
  case (1 keep top_dir n t)
  then show ?case by simp
next
  case (2 keep top_dir n t ch)
  from "2.prems" consider "r = top_dir" |
    c where "c \<in> set ch" "is_dir c" "keep (name c)"
            "(r, ds, fl) \<in> set (walk_topdown keep (top_dir @ [name c]) c)"
    by auto
  then show ?case
  proof cases
    case 1
    then show ?thesis by simp
  next
    case 2
    from "2.IH"[of c r ds fl] 2 obtain rel where "r = (top_dir @ [name c]) @ rel" "list_all keep rel"
      by auto
    then have "r = top_dir @ (name c # rel)" "list_all keep (name c # rel)" using 2(3) by auto
    then show ?thesis by blast
  qed
qed

lemma scanned_files_skip_excluded:
  assumes "p \<in> set (scanned_files fs top_dir script_name)"
  shows "set (butlast (os_path_relpath p top_dir)) \<inter> set EXCLUDE_DIRS = {}"
proof -
  from assms obtain r ds fl nm where
    w: "(r, ds, fl) \<in> set (os_walk not_excluded fs top_dir)" and p: "p = r @ [nm]"
    by (auto simp: scanned_files_def os_path_join_def)
  from w obtain n where "(r, ds, fl) \<in> set (walk_topdown not_excluded top_dir n)"
    by (cases "resolve top_dir fs") (auto simp: os_walk_def)
  from walk_topdown_kept[OF this] obtain rel where "r = top_dir @ rel" "list_all not_excluded rel"
    by blast
  then show ?thesis using p
    by (auto simp: os_path_relpath_def butlast_append list_all_iff not_excluded_def)
qed

subsection \<open>The order of the bottom-up walk\<close>

lemma same_length_prefixes:
  "prefix (a @ [x]) p \<Longrightarrow> prefix (a @ [y]) p \<Longrightarrow> x = y"
  by (auto simp: prefix_def append_eq_append_conv2 Cons_eq_append_conv)

lemma bottom_up_concat:
  assumes "distinct (map name cs)"
    and "\<And>c. c \<in> set cs \<Longrightarrow> bottom_up (f c)"
    and "\<And>c x. c \<in> set cs \<Longrightarrow> x \<in> set (f c) \<Longrightarrow> prefix (top_dir @ [name c]) x"
  shows "bottom_up (concat (map f cs))"
  using assms
proof (induction cs)
  case Nil
  then show ?case by (simp add: bottom_up_def)
next
  case (Cons c cs)
  have rest: "bottom_up (concat (map f cs))" using Cons by auto
  have cross: "\<not> strict_prefix x y"
    if "x \<in> set (f c)" "y \<in> set (concat (map f cs))" for x y
  proof
    assume sp: "strict_prefix x y"
    from that(2) obtain c' where c': "c' \<in> set cs" "y \<in> set (f c')" by auto
    have "prefix (top_dir @ [name c]) x" using Cons.prems(3) that(1) by simp
    then have "prefix (top_dir @ [name c]) y" using sp by (auto simp: strict_prefix_def)
    moreover have "prefix (top_dir @ [name c']) y" using Cons.prems(3) c' by simp
    ultimately have "name c = name c'" by (rule same_length_prefixes)
    then show False using Cons.prems(1) c'(1) by auto
  qed
  have "bottom_up (f c)" using Cons.prems(2) by simp
  then show ?case using rest cross
    by (auto simp: bottom_up_def sorted_wrt_append)
qed

lemma concat_map_concat_map:
  "concat (map g (concat (map f xs))) = concat (map (\<lambda>x. concat (map g (f x))) xs)"
  by (induction xs) auto

lemma sorted_wrt_all:
  "(\<And>x y. x \<in> set xs \<Longrightarrow> y \<in> set xs \<Longrightarrow> P x y) \<Longrightarrow> sorted_wrt P xs"
  by (induction xs) auto

lemma dirs_below_Dir:
  "dirs_below top_dir (Dir n t ch) =
     concat (map (\<lambda>c. dirs_below (top_dir @ [name c]) c) (filter is_dir ch)) @
     map (\<lambda>nm. top_dir @ [nm]) (filter not_excluded (dirnames ch))"
  by (simp add: dirs_below_def concat_map_concat_map os_path_join_def)

lemma dirs_below_prefix:
  "x \<in> set (dirs_below top_dir n) \<Longrightarrow> strict_prefix top_dir x"
  by (auto simp: dirs_below_def os_path_join_def strict_prefix_def
           dest!: walk_bottomup_prefix elim!: prefixE)

lemma bottom_up_dirs_below:
  "wf_node n \<Longrightarrow> bottom_up (dirs_below top_dir n)"
proof (induction top_dir n rule: walk_bottomup.induct)
  case (1 top_dir n t)
  then show ?case by (simp add: dirs_below_def bottom_up_def)
next
  case (2 top_dir n t ch)
  let ?f = "\<lambda>c. dirs_below (top_dir @ [name c]) c"
  let ?last = "map (\<lambda>nm. top_dir @ [nm]) (filter not_excluded (dirnames ch))"
  have d: "distinct (map name (filter is_dir ch))"
    using "2.prems" by (simp add: distinct_map_filter)
  have deep: "bottom_up (concat (map ?f (filter is_dir ch)))"
  proof (rule bottom_up_concat[OF d, where top_dir = top_dir])
    fix c assume "c \<in> set (filter is_dir ch)"
    then show "bottom_up (?f c)" using "2.IH"[of c] "2.prems" by (auto simp: list_all_iff)
  next
    fix c x assume "c \<in> set (filter is_dir ch)" "x \<in> set (?f c)"
    then show "prefix (top_dir @ [name c]) x"
      using dirs_below_prefix[of x "top_dir @ [name c]" c] by (simp add: strict_prefix_def)
  qed
  have last: "bottom_up ?last"
    unfolding bottom_up_def by (rule sorted_wrt_all) (auto simp: strict_prefix_def prefix_def)
  have cross: "\<not> strict_prefix x y"
    if "x \<in> set (concat (map ?f (filter is_dir ch)))" "y \<in> set ?last" for x y
  proof
    assume sp: "strict_prefix x y"
    from that(1) obtain c where "x \<in> set (?f c)" by auto
    then have "strict_prefix (top_dir @ [name c]) x" by (rule dirs_below_prefix)
    then have "length x > length top_dir + 1" by (auto simp: strict_prefix_def prefix_def)
    moreover have "length y = length top_dir + 1" using that(2) by auto
    moreover have "length x < length y" using sp by (auto simp: strict_prefix_def prefix_def)
    ultimately show False by simp
  qed
  show ?case
    unfolding dirs_below_Dir using deep last cross
    by (auto simp: bottom_up_def sorted_wrt_append)
qed


lemma scanned_dirs_below:
  "scanned_dirs fs top_dir = (case resolve top_dir fs of None \<Rightarrow> [] | Some n \<Rightarrow> dirs_below top_dir n)"
  by (simp add: scanned_dirs_def os_walk_bottomup_def dirs_below_def split: option.splits)

lemma bottom_up_scanned_dirs:
  "wf_node fs \<Longrightarrow> bottom_up (scanned_dirs fs top_dir)"
  by (auto simp: scanned_dirs_below bottom_up_def[of "[]"] split: option.splits
           intro: bottom_up_dirs_below dest: wf_resolve)

lemma file_has_no_descendant:
  assumes "resolve x fs = Some (File nm t)" and "resolve y fs \<noteq> None"
  shows "\<not> strict_prefix x y"
proof
  assume "strict_prefix x y"
  then obtain z where "y = x @ z" "z \<noteq> []" by (auto simp: strict_prefix_def prefix_def)
  then have "resolve y fs = None"
    using assms(1) by (cases z) (simp_all add: resolve_append)
  then show False using assms(2) by simp
qed

lemma delete_step_calls:
  "map call_target (calls (delete_step io p s)) = map call_target (calls s) @ [p]"
  by (auto simp: delete_step_def issue_def print_line_def record_error_def
           split: prod.splits option.splits)

lemma delete_loop_calls:
  "map call_target (calls (fold (delete_step io) ps s)) = map call_target (calls s) @ ps"
  by (induction ps arbitrary: s) (simp_all add: delete_step_calls)

subsection \<open>Grouping by directory\<close>

lemma first_occurrences_snoc:
  "first_occurrences (ys @ [y]) =
     (if y \<in> set ys then first_occurrences ys else first_occurrences ys @ [y])"
  by (simp add: first_occurrences_def)

lemma first_occurrences_set: "set (first_occurrences ys) = set ys"
  by (simp add: first_occurrences_def)

lemma first_occurrences_distinct: "distinct (first_occurrences ys)"
  by (simp add: first_occurrences_def)

lemma dict_append_present:
  "distinct keys \<Longrightarrow> k \<in> set keys \<Longrightarrow>
   dict_append k v (map (\<lambda>d. (d, g d)) keys) =
     map (\<lambda>d. (d, if d = k then g d @ [v] else g d)) keys"
  by (induction keys) auto

lemma dict_append_absent:
  "k \<notin> set keys \<Longrightarrow>
   dict_append k v (map (\<lambda>d. (d, g d)) keys) = map (\<lambda>d. (d, g d)) keys @ [(k, [v])]"
  by (induction keys) auto

lemma group_files_by_directory_snoc:
  "group_files_by_directory (fl @ [f]) =
     dict_append (os_path_dirname f) f (group_files_by_directory fl)"
  by (simp add: group_files_by_directory_def)

lemma group_files_by_directory_eq:
  "group_files_by_directory fl =
     map (\<lambda>d. (d, filter (\<lambda>f. os_path_dirname f = d) fl))
       (first_occurrences (map os_path_dirname fl))"
proof (induction fl rule: rev_induct)
  case Nil
  then show ?case by (simp add: group_files_by_directory_def first_occurrences_def)
next
  case (snoc f fl)
  let ?k = "os_path_dirname f"
  let ?keys = "first_occurrences (map os_path_dirname fl)"
  show ?case
  proof (cases "?k \<in> set (map os_path_dirname fl)")
    case True
    then have k: "?k \<in> set ?keys" by (simp add: first_occurrences_set)
    let ?g = "\<lambda>d. filter (\<lambda>x. os_path_dirname x = d) fl"
    have "group_files_by_directory (fl @ [f]) = dict_append ?k f (map (\<lambda>d. (d, ?g d)) ?keys)"
      using snoc.IH by (simp add: group_files_by_directory_snoc)
    also have "\<dots> = map (\<lambda>d. (d, if d = ?k then ?g d @ [f] else ?g d)) ?keys"
      by (rule dict_append_present[OF first_occurrences_distinct k])
    also have "\<dots> = map (\<lambda>d. (d, filter (\<lambda>x. os_path_dirname x = d) (fl @ [f]))) ?keys"
      by (rule map_cong) auto
    finally show ?thesis using True by (simp add: first_occurrences_snoc)
  next
    case False
    then have nk: "?k \<notin> set ?keys" by (simp add: first_occurrences_set)
    have none: "filter (\<lambda>x. os_path_dirname x = ?k) fl = []"
      using False by (auto simp: filter_empty_conv image_iff)
    let ?g = "\<lambda>d. filter (\<lambda>x. os_path_dirname x = d) fl"
    have "group_files_by_directory (fl @ [f]) = dict_append ?k f (map (\<lambda>d. (d, ?g d)) ?keys)"
      using snoc.IH by (simp add: group_files_by_directory_snoc)
    also have "\<dots> = map (\<lambda>d. (d, ?g d)) ?keys @ [(?k, [f])]"
      by (rule dict_append_absent[OF nk])
    also have "map (\<lambda>d. (d, ?g d)) ?keys =
               map (\<lambda>d. (d, filter (\<lambda>x. os_path_dirname x = d) (fl @ [f]))) ?keys"
      using nk by (intro map_cong) auto
    finally show ?thesis using False none by (simp add: first_occurrences_snoc)
  qed
qed

lemma summary_eq:
  "concat (map (summary_lines collapsed single) (group_files_by_directory fl)) =
   concat (map (\<lambda>d. if length (filter (\<lambda>f. os_path_dirname f = d) fl) > 20
                      then [collapsed @ show_path d]
                      else map (\<lambda>f. single @ show_path f) (filter (\<lambda>f. os_path_dirname f = d) fl))
             (first_occurrences (map os_path_dirname fl)))"
  by (simp add: group_files_by_directory_eq summary_lines_def comp_def)

section \<open>Properties of the execution phases\<close>

























section \<open>The claims\<close>




text \<open>
  C4. A target-side entry that the scans reach (a file of the top-down walk other than the
  script's name, or a directory the bottom-up walk lists) is a delete-candidate if and only
  if its source-side path, the source root joined with the entry's path relative to the
  target root, does not exist; and an entry without a source counterpart is neither an
  overwrite-candidate nor the destination of a copy-candidate.
\<close>

theorem C4_delete_iff_source_missing:
  assumes "plan fs source target script_name = Inr c"
    and "wf_node fs"
    and "p \<in> set (scanned_files fs target script_name) \<union> set (scanned_dirs fs target)"
  shows "(p \<in> set (delete_candidates c)) = (\<not> os_path_exists fs (source_path source target p)) \<and>
         (\<not> os_path_exists fs (source_path source target p) \<longrightarrow>
            p \<notin> set (overwrite_candidates c) \<and> p \<notin> snd ` set (copy_candidates c))"
proof (intro conjI impI)
  show "(p \<in> set (delete_candidates c)) = (\<not> os_path_exists fs (source_path source target p))"
    using assms(1,3) by (rule delete_candidates_iff)
next
  assume missing: "\<not> os_path_exists fs (source_path source target p)"
  show "p \<notin> set (overwrite_candidates c)"
    using plan_lists(2)[OF assms(1)] missing by (auto simp: overwrite_test_def)
  show "p \<notin> snd ` set (copy_candidates c)"
  proof
    assume "p \<in> snd ` set (copy_candidates c)"
    then obtain sf where "(sf, p) \<in> set (copy_candidates c)" by auto
    from copy_destination_has_source[OF assms(1,2) this]
    have "os_path_exists fs (source_path source target p)" by simp
    then show False using missing by simp
  qed
qed

theorem C4_delete_iff_source_missing_witness:
  "([''t'', ''o.txt''] \<in> set (delete_candidates planA)) \<and>
   \<not> os_path_exists fsA [''s'', ''o.txt''] \<and>
   [''t'', ''o.txt''] \<notin> set (overwrite_candidates planA) \<and>
   [''t'', ''o.txt''] \<notin> snd ` set (copy_candidates planA) \<and>
   ([''t'', ''e'', ''f''] \<in> set (delete_candidates planA)) \<and>
   ([''t'', ''a.txt''] \<notin> set (delete_candidates planA))"
proof -
  have p: "plan fsA [''s''] [''t''] ''sync.py'' = Inr planA" by code_simp
  have wf: "wf_node fsA" by code_simp
  have o: "[''t'', ''o.txt''] \<in> set (scanned_files fsA [''t''] ''sync.py'') \<union> set (scanned_dirs fsA [''t''])"
    by code_simp
  have f: "[''t'', ''e'', ''f''] \<in> set (scanned_files fsA [''t''] ''sync.py'') \<union> set (scanned_dirs fsA [''t''])"
    by code_simp
  have a: "[''t'', ''a.txt''] \<in> set (scanned_files fsA [''t''] ''sync.py'') \<union> set (scanned_dirs fsA [''t''])"
    by code_simp
  have so: "source_path [''s''] [''t''] [''t'', ''o.txt''] = [''s'', ''o.txt'']"
           "\<not> os_path_exists fsA [''s'', ''o.txt'']" by code_simp+
  have sf: "\<not> os_path_exists fsA (source_path [''s''] [''t''] [''t'', ''e'', ''f''])" by code_simp
  have sa: "os_path_exists fsA (source_path [''s''] [''t''] [''t'', ''a.txt''])" by code_simp
  show ?thesis
    using C4_delete_iff_source_missing[OF p wf o] C4_delete_iff_source_missing[OF p wf f]
      C4_delete_iff_source_missing[OF p wf a] so sf sa
    by simp
qed



text \<open>
  C10. The test \<open>name == script_name\<close> stands in the two loops over files only. A
  directory of the target that carries the script's name is listed by the bottom-up walk
  like any other directory, and, passing the exclusion filter like any other, is a
  delete-candidate if and only if its source-side path does not exist.
\<close>

theorem C10_directory_named_like_script:
  assumes "plan fs source target script_name = Inr c"
    and "(root_dir, dirs, files) \<in> set (os_walk_bottomup fs target)"
    and "script_name \<in> set dirs"
    and "script_name \<notin> set EXCLUDE_DIRS"
  shows "(os_path_join root_dir [script_name] \<in> set (delete_candidates c)) =
         (\<not> os_path_exists fs (source_path source target (os_path_join root_dir [script_name])))"
proof -
  have "os_path_join root_dir [script_name] \<in> set (scanned_dirs fs target)"
    using assms(2,3,4) by (force simp: scanned_dirs_def not_excluded_def)
  then show ?thesis using delete_candidates_iff[OF assms(1)] by simp
qed

theorem C10_directory_named_like_script_witness:
  "os_path_join [''t''] [''sync.py''] \<in> set (delete_candidates planC) \<and>
   \<not> os_path_exists fsC (source_path [''s''] [''t''] (os_path_join [''t''] [''sync.py'']))"
proof -
  have p: "plan fsC [''s''] [''t''] ''sync.py'' = Inr planC" by code_simp
  have w: "([''t''], [''sync.py''], []) \<in> set (os_walk_bottomup fsC [''t''])" by code_simp
  have d: "''sync.py'' \<in> set [''sync.py'']" by simp
  have x: "''sync.py'' \<notin> set EXCLUDE_DIRS" by code_simp
  have m: "\<not> os_path_exists fsC (source_path [''s''] [''t''] (os_path_join [''t''] [''sync.py'']))"
    by code_simp
  show ?thesis using C10_directory_named_like_script[OF p w d x] m by simp
qed




text \<open>
  C3 fails for the bottom-up walk: in \<open>fsA\<close> the directory \<open>sub\<close> lies under the
  excluded directory of the target and is a delete-candidate. The assignment to
  \<open>dirs[:]\<close> on line 77 comes after the walk has gone through the subdirectories.
  The two top-down walks do stay out of excluded directories (lemma
  \<open>scanned_files_skip_excluded\<close>).
\<close>

theorem C3_bottom_up_walk_enters_excluded:
  "''System Volume Information'' \<in> set EXCLUDE_DIRS \<and>
   os_path_isdir fsA [''t'', ''System Volume Information''] \<and>
   plan fsA [''s''] [''t''] ''sync.py'' = Inr planA \<and>
   [''t'', ''System Volume Information'', ''sub''] \<in> set (delete_candidates planA)"
  by code_simp

text \<open>
  C6. In the delete-candidate list of a file system whose directories have distinct entry
  names, an entry that lies below another entry of the list comes before it: a file or a
  directory precedes each of its ancestors. The deletion loop issues its operations on the
  candidates in the order of the list, one per candidate, whatever the operations do.
\<close>

theorem C6_descendants_first:
  assumes "plan fs source target script_name = Inr c"
    and "wf_node fs"
  shows "(\<forall>i j. i < length (delete_candidates c) \<and> j < length (delete_candidates c) \<and>
                strict_prefix (delete_candidates c ! i) (delete_candidates c ! j) \<longrightarrow> j < i) \<and>
         map call_target (calls (fold (delete_step io) (delete_candidates c) s)) =
           map call_target (calls s) @ delete_candidates c"
proof
  let ?F = "filter (\<lambda>p. should_delete_file fs p source target) (scanned_files fs target script_name)"
  let ?D = "filter (\<lambda>p. \<not> os_path_exists fs (source_path source target p)) (scanned_dirs fs target)"
  let ?P = "\<lambda>p q. \<not> strict_prefix p q"
  have L: "delete_candidates c = ?F @ ?D" using plan_lists(1)[OF assms(1)] .
  have res: "resolve y fs \<noteq> None" if "y \<in> set (?F @ ?D)" for y
    using that scanned_files_resolve[OF assms(2), of y target script_name]
      scanned_dirs_resolve[OF assms(2), of y target]
    by auto
  have nofile: "?P x y" if "x \<in> set ?F" "y \<in> set (?F @ ?D)" for x y
  proof -
    from that(1) scanned_files_resolve[OF assms(2), of x target script_name]
    obtain nm t where "resolve x fs = Some (File nm t)" by auto
    then show ?thesis using res[OF that(2)] by (rule file_has_no_descendant)
  qed
  have "sorted_wrt ?P ?F" by (rule sorted_wrt_all) (simp add: nofile)
  moreover have "sorted_wrt ?P ?D"
    using bottom_up_scanned_dirs[OF assms(2), of target]
    by (simp add: bottom_up_def sorted_wrt_filter)
  ultimately have "sorted_wrt ?P (delete_candidates c)"
    using nofile by (simp add: L sorted_wrt_append)
  then have nth: "?P (delete_candidates c ! i) (delete_candidates c ! j)"
    if "i < j" "j < length (delete_candidates c)" for i j
    using that by (simp add: sorted_wrt_iff_nth_less)
  show "\<forall>i j. i < length (delete_candidates c) \<and> j < length (delete_candidates c) \<and>
                strict_prefix (delete_candidates c ! i) (delete_candidates c ! j) \<longrightarrow> j < i"
  proof (intro allI impI)
    fix i j
    assume h: "i < length (delete_candidates c) \<and> j < length (delete_candidates c) \<and>
                strict_prefix (delete_candidates c ! i) (delete_candidates c ! j)"
    then have "i \<noteq> j" by auto
    moreover have "\<not> i < j" using nth h by blast
    ultimately show "j < i" by simp
  qed
  show "map call_target (calls (fold (delete_step io) (delete_candidates c) s)) =
           map call_target (calls s) @ delete_candidates c"
    by (rule delete_loop_calls)
qed

theorem C6_descendants_first_witness:
  "delete_candidates planA ! 5 = [''t'', ''e''] \<and>
   delete_candidates planA ! 2 = [''t'', ''e'', ''f'', ''z''] \<and>
   delete_candidates planA ! 4 = [''t'', ''e'', ''f''] \<and>
   map call_target
     (calls (fold (delete_step ideal_io) (delete_candidates planA)
               \<lparr>files_now = fsA, calls = [], printed = [], error_paths = []\<rparr>)) =
   delete_candidates planA"
proof -
  have p: "plan fsA [''s''] [''t''] ''sync.py'' = Inr planA" by code_simp
  have wf: "wf_node fsA" by code_simp
  have "delete_candidates planA ! 5 = [''t'', ''e'']"
       "delete_candidates planA ! 2 = [''t'', ''e'', ''f'', ''z'']"
       "delete_candidates planA ! 4 = [''t'', ''e'', ''f'']"
    by code_simp+
  then show ?thesis
    using C6_descendants_first[OF p wf, of ideal_io
            "\<lparr>files_now = fsA, calls = [], printed = [], error_paths = []\<rparr>"]
    by simp
qed

text \<open>
  C9. The summary of a candidate list is made of one block of lines for each containing
  directory, in the order in which the directories first occur: a directory that holds
  more than 20 of the candidates contributes exactly one collapsed line, and a directory
  that holds at most 20 contributes one line for each of its candidates. So 21 candidates
  of one directory give one line and 20 give 20 lines. The same holds for deletions and
  for overwrites.
\<close>

theorem C9_group_lines:
  "deletion_summary fl =
     concat (map (\<lambda>d. if length (filter (\<lambda>f. os_path_dirname f = d) fl) > 20
                        then [''Delete 20+ files in directory: '' @ show_path d]
                        else map (\<lambda>f. ''Delete file: '' @ show_path f)
                               (filter (\<lambda>f. os_path_dirname f = d) fl))
               (first_occurrences (map os_path_dirname fl))) \<and>
   overwrite_summary fl =
     concat (map (\<lambda>d. if length (filter (\<lambda>f. os_path_dirname f = d) fl) > 20
                        then [''Overwrite 20+ files in directory: '' @ show_path d]
                        else map (\<lambda>f. ''Overwrite file: '' @ show_path f)
                               (filter (\<lambda>f. os_path_dirname f = d) fl))
               (first_occurrences (map os_path_dirname fl)))"
  unfolding deletion_summary_def overwrite_summary_def by (simp only: summary_eq)

theorem C9_group_lines_witness:
  "length files21 = 21 \<and> deletion_summary files21 = [''Delete 20+ files in directory: /t/d''] \<and>
   length files20 = 20 \<and> length (deletion_summary files20) = 20 \<and>
   overwrite_summary files21 = [''Overwrite 20+ files in directory: /t/d''] \<and>
   length (overwrite_summary files20) = 20"
  using C9_group_lines[of files21] C9_group_lines[of files20]
  by code_simp








end
